theory Spec2Isabelle
  imports Main "HOL-Library.Sublist" "HOL-Library.Multiset"
begin

unbundle bit_operations_syntax

section \<open>Machine integers\<close>

text \<open>
  The fixed-width unsigned integers of \<^verbatim>\<open>audit_chain.hpp\<close> are modelled as \<^typ>\<open>int\<close> with
  the wrap-around written out: every arithmetic result that the C++ stores in a
  \<^verbatim>\<open>uint8_t\<close>, \<^verbatim>\<open>uint32_t\<close> or \<^verbatim>\<open>uint64_t\<close> is reduced modulo \<open>2\<^sup>8\<close>, \<open>2\<^sup>3\<^sup>2\<close> or
  \<open>2\<^sup>6\<^sup>4\<close>. \<^verbatim>\<open>size_t\<close> is taken to be 64 bits wide.
\<close>

type_synonym u8 = int
type_synonym u32 = int
type_synonym u64 = int

definition wrap8 :: "int \<Rightarrow> u8" where
  "wrap8 x = x mod 256"

definition wrap32 :: "int \<Rightarrow> u32" where
  "wrap32 x = x mod 4294967296"

definition wrap64 :: "int \<Rightarrow> u64" where
  "wrap64 x = x mod 18446744073709551616"

section \<open>The digest engine: class \<^verbatim>\<open>SHA256\<close>\<close>

type_synonym Hash = "u8 list"

record SHA256 =
  h :: "u32 list"
  buffer :: "u8 list"
  buffer_len :: u8
  bit_len :: u64

text \<open>The table \<^verbatim>\<open>SHA256::k\<close>, copied entry by entry from the header.\<close>

definition k :: "u32 list" where
  "k =
     [0x428a2f98, 0x71374491, 0xb5c0fbcf, 0xe9b5dba5, 0x3956c25c, 0x59f111f1, 0x923f82e4, 0xab1c5ed5] @
     [0xd807aa98, 0x12835b01, 0x243185be, 0x550c7dc3, 0x72be5d8d, 0x80deb1fe, 0x9bdc06a7, 0xc19bf174] @
     [0xe49b69c1, 0xefbe4786, 0x0fc19dc6, 0x240ca1cc, 0x2de92c6f, 0x4a7484aa, 0x5cb0a9dc, 0x76f988da] @
     [0x983e5152, 0xa831c66b, 0xb00327c8, 0xbf597fc7, 0xc6e00bf3, 0xd5a79147, 0x06ca6351, 0x14292967] @
     [0x27b70a85, 0x2e1b2138, 0x4d2c6dfc, 0x53380d13, 0x650a7354, 0x766a0abb, 0x81c2c92e, 0x92722c85] @
     [0xa2bfe8a1, 0xa81a664b, 0xc24b8b70, 0xc76c51a3, 0xd192e819, 0xd6990624, 0xf40e3585, 0x106aa070] @
     [0x19a4c116, 0x1e376c08, 0x2748774c, 0x34b0bcb5, 0x391c0cb3, 0x4ed8aa4a, 0x5b9cca4f, 0x682e6ff3] @
     [0x748f82ee, 0x78a5636f, 0x84c87814, 0x8cc70208, 0x90befffa, 0xa4506ceb, 0xbef9a3f7, 0xc67178f2]"

text \<open>
  Modelled from the spec: the 64 round constants of the published SHA-256 standard
  (FIPS 180-4, section 4.2.2), which the specification names as the algorithm to be
  reproduced. The table is used only to compare it with \<^const>\<open>k\<close>.
\<close>

definition k_FIPS_180_4 :: "u32 list" where
  "k_FIPS_180_4 =
     [0x428a2f98, 0x71374491, 0xb5c0fbcf, 0xe9b5dba5, 0x3956c25b, 0x59f111f1, 0x923f82a4, 0xab1c5ed5] @
     [0xd807aa98, 0x12835b01, 0x243185be, 0x550c7dc3, 0x72be5d74, 0x80deb1fe, 0x9bdc06a7, 0xc19bf174] @
     [0xe49b69c1, 0xefbe4786, 0x0fc19dc6, 0x240ca1cc, 0x2de92c6f, 0x4a7484aa, 0x5cb0a9dc, 0x76f988da] @
     [0x983e5152, 0xa831c66d, 0xb00327c8, 0xbf597fc7, 0xc6e00bf3, 0xd5a79147, 0x06ca6351, 0x14292967] @
     [0x27b70a85, 0x2e1b2138, 0x4d2c6dfc, 0x53380d13, 0x650a7354, 0x766a0abb, 0x81c2c92e, 0x92722c85] @
     [0xa2bfe8a1, 0xa81a664b, 0xc24b8b70, 0xc76c51a3, 0xd192e819, 0xd6990624, 0xf40e3585, 0x106aa070] @
     [0x19a4c116, 0x1e376c08, 0x2748774c, 0x34b0bcb5, 0x391c0cb3, 0x4ed8aa4a, 0x5b9cca4f, 0x682e6ff3] @
     [0x748f82ee, 0x78a5636f, 0x84c87814, 0x8cc70208, 0x90befffa, 0xa4506ceb, 0xbef9a3f7, 0xc67178f2]"

text \<open>\<^verbatim>\<open>(value >> amount) | (value << (32 - amount))\<close> on \<^verbatim>\<open>uint32_t\<close>.\<close>

definition right_rotate :: "u32 \<Rightarrow> nat \<Rightarrow> u32" where
  "right_rotate v amount = drop_bit amount v OR wrap32 (push_bit (32 - amount) v)"

text \<open>The big-endian load \<^verbatim>\<open>w[i] = buffer[4i] << 24 | ... | buffer[4i + 3]\<close>.\<close>

definition load_word :: "u8 list \<Rightarrow> nat \<Rightarrow> u32" where
  "load_word buf i =
     wrap32 (push_bit 24 (buf ! (i * 4)) OR push_bit 16 (buf ! (i * 4 + 1)) OR
             push_bit 8 (buf ! (i * 4 + 2)) OR buf ! (i * 4 + 3))"

text \<open>
  One iteration of the message-schedule loop \<^verbatim>\<open>for (i = 16; i < 64; ++i)\<close>: the list \<open>w\<close>
  holds \<^verbatim>\<open>w[0..i-1]\<close> and is extended by \<^verbatim>\<open>w[i]\<close>.
\<close>

definition schedule_step :: "u32 list \<Rightarrow> nat \<Rightarrow> u32 list" where
  "schedule_step w i =
     (let s0 = right_rotate (w ! (i - 15)) 7 XOR right_rotate (w ! (i - 15)) 18
                 XOR drop_bit 3 (w ! (i - 15));
          s1 = right_rotate (w ! (i - 2)) 17 XOR right_rotate (w ! (i - 2)) 19
                 XOR drop_bit 10 (w ! (i - 2))
      in w @ [wrap32 (w ! (i - 16) + s0 + w ! (i - 7) + s1)])"

text \<open>
  One iteration of the compression loop on the working registers
  \<^verbatim>\<open>a, b, c, d, e, f, g, h_val\<close>.
\<close>

definition round_step :: "u32 list \<Rightarrow> u32 list \<Rightarrow> nat \<Rightarrow> u32 list" where
  "round_step w v i =
     (case v of
        [a, b, c, d, e, f, g, h_val] \<Rightarrow>
          (let S1 = right_rotate e 6 XOR right_rotate e 11 XOR right_rotate e 25;
               ch = (e AND f) XOR (wrap32 (NOT e) AND g);
               temp1 = wrap32 (h_val + S1 + ch + k ! i + w ! i);
               S0 = right_rotate a 2 XOR right_rotate a 13 XOR right_rotate a 22;
               maj = (a AND b) XOR (a AND c) XOR (b AND c);
               temp2 = wrap32 (S0 + maj)
           in [wrap32 (temp1 + temp2), a, b, c, wrap32 (d + temp1), e, f, g])
      | _ \<Rightarrow> v)"

definition transform :: "SHA256 \<Rightarrow> SHA256" where
  "transform s =
     (let w16 = map (load_word (buffer s)) [0..<16];
          w = foldl schedule_step w16 [16..<64];
          v = foldl (round_step w) (h s) [0..<64]
      in s\<lparr>h := map2 (\<lambda>x y. wrap32 (x + y)) (h s) v\<rparr>)"

text \<open>
  The body of the loop of \<^verbatim>\<open>update\<close>:
  \<^verbatim>\<open>buffer[buffer_len++] = data[i]; if (buffer_len == 64) { transform(); buffer_len = 0; }\<close>
\<close>

definition update_byte :: "SHA256 \<Rightarrow> u8 \<Rightarrow> SHA256" where
  "update_byte s d =
     (let s1 = s\<lparr>buffer := (buffer s)[nat (buffer_len s) := d],
                  buffer_len := wrap8 (buffer_len s + 1)\<rparr>
      in if buffer_len s1 = 64 then (transform s1)\<lparr>buffer_len := 0\<rparr> else s1)"

definition update :: "SHA256 \<Rightarrow> u8 list \<Rightarrow> SHA256" where
  "update s data =
     (let s1 = foldl update_byte s data
      in s1\<lparr>bit_len := wrap64 (bit_len s1 + wrap64 (int (length data) * 8))\<rparr>)"

text \<open>A default-constructed context (the in-class member initialisers).\<close>

definition init :: SHA256 where
  "init = \<lparr>h = [0x6a09e667, 0xbb67ae85, 0x3c6ef372, 0xa54ff53a,
                0x510e527f, 0x9b05688c, 0x1f83d9ab, 0x5be0cd19],
            buffer = replicate 64 0, buffer_len = 0, bit_len = 0\<rparr>"

definition padding :: "u8 list" where
  "padding = 0x80 # replicate 63 0"

text \<open>
  \<^verbatim>\<open>finalize\<close> feeds the eight bytes of \<^verbatim>\<open>swap_endian(bit_len)\<close> in memory order. On the
  little-endian hosts the header is written for, these are the bytes of \<^verbatim>\<open>bit_len\<close>
  from the most significant to the least significant one.
\<close>

definition swap_endian_bytes :: "u64 \<Rightarrow> u8 list" where
  "swap_endian_bytes v = map (\<lambda>i. drop_bit (8 * i) v AND 0xFF) [7, 6, 5, 4, 3, 2, 1, 0]"

definition finalize :: "SHA256 \<Rightarrow> Hash" where
  "finalize s =
     (let bit_len_be = swap_endian_bytes (bit_len s);
          pad_len = wrap8 (if buffer_len s < 56 then 56 - buffer_len s
                           else 120 - buffer_len s);
          s1 = update s (take (nat pad_len) padding);
          s2 = update s1 bit_len_be
      in concat (map (\<lambda>x. [drop_bit 24 x AND 0xFF, drop_bit 16 x AND 0xFF,
                             drop_bit 8 x AND 0xFF, drop_bit 0 x AND 0xFF]) (h s2)))"

definition hash :: "u8 list \<Rightarrow> Hash" where
  "hash data = finalize (update init data)"

text \<open>\<^verbatim>\<open>SHA256::hash(const std::string&)\<close>: the characters reinterpreted as bytes.\<close>

definition hash_string :: "string \<Rightarrow> Hash" where
  "hash_string str = hash (map of_char str)"

section \<open>Text formatting and parsing of the C++ standard library\<close>

text \<open>
  The header relies on stream insertion of integers (\<^verbatim>\<open>operator<<\<close> with \<^verbatim>\<open>std::hex\<close>,
  \<^verbatim>\<open>std::setw\<close>, \<^verbatim>\<open>std::setfill\<close>), on \<^verbatim>\<open>std::string::find\<close> and \<^verbatim>\<open>substr\<close>, and on
  \<^verbatim>\<open>std::stoi\<close>. These library functions are modelled after the C++ standard; the
  exceptions they throw are values of type \<open>exn\<close>.
\<close>

datatype exn = InvalidArgument | OutOfRange

definition quote :: char where
  "quote = CHR 0x22"

definition backslash :: char where
  "backslash = CHR 0x5C"

definition digit_char :: "nat \<Rightarrow> char" where
  "digit_char d = ''0123456789abcdef'' ! d"

fun dec_digits :: "nat \<Rightarrow> string" where
  "dec_digits n = (if n < 10 then [digit_char n] else dec_digits (n div 10) @ [digit_char (n mod 10)])"

fun hex_digits :: "nat \<Rightarrow> string" where
  "hex_digits n = (if n < 16 then [digit_char n] else hex_digits (n div 16) @ [digit_char (n mod 16)])"

text \<open>\<^verbatim>\<open>os << i\<close> for an \<^verbatim>\<open>int\<close> in the default (decimal) base.\<close>

definition show_int :: "int \<Rightarrow> string" where
  "show_int i = (if i < 0 then CHR ''-'' # dec_digits (nat (- i)) else dec_digits (nat i))"

text \<open>
  \<^verbatim>\<open>os << std::hex << i\<close> for an \<^verbatim>\<open>int\<close>: lowercase digits of the value read as an
  unsigned 32-bit number.
\<close>

definition show_hex :: "int \<Rightarrow> string" where
  "show_hex i = hex_digits (nat (wrap32 i))"

text \<open>\<^verbatim>\<open>std::setfill(c) << std::setw(n)\<close> applied to the next formatted item.\<close>

definition pad_left :: "nat \<Rightarrow> char \<Rightarrow> string \<Rightarrow> string" where
  "pad_left n c s = replicate (n - length s) c @ s"

text \<open>\<^verbatim>\<open>s.find(key)\<close>: the first position where \<open>key\<close> occurs, \<^verbatim>\<open>npos\<close> as \<open>None\<close>.\<close>

fun find_str :: "string \<Rightarrow> string \<Rightarrow> nat option" where
  "find_str [] key = (if key = [] then Some 0 else None)"
| "find_str (c # cs) key =
     (if prefix key (c # cs) then Some 0 else map_option Suc (find_str cs key))"

text \<open>\<^verbatim>\<open>s.find(ch, pos)\<close>: the first position at or after \<open>pos\<close> that holds \<open>ch\<close>.\<close>

definition find_char :: "string \<Rightarrow> char \<Rightarrow> nat \<Rightarrow> nat option" where
  "find_char s ch pos =
     (if ch \<in> set (drop pos s) then Some (pos + length (takeWhile (\<lambda>x. x \<noteq> ch) (drop pos s)))
      else None)"

text \<open>\<^verbatim>\<open>s.substr(pos, n)\<close> throws \<^verbatim>\<open>std::out_of_range\<close> when \<open>pos\<close> exceeds the size.\<close>

definition substr :: "string \<Rightarrow> nat \<Rightarrow> nat \<Rightarrow> exn + string" where
  "substr s pos n = (if pos > length s then Inl OutOfRange else Inr (take n (drop pos s)))"

definition isspace :: "char \<Rightarrow> bool" where
  "isspace c = (c \<in> set [CHR 0x20, CHR 0x09, CHR 0x0A, CHR 0x0B, CHR 0x0C, CHR 0x0D])"

definition hex_value :: "char \<Rightarrow> nat option" where
  "hex_value c =
     (let n = (of_char c :: nat) in
      if 48 \<le> n \<and> n \<le> 57 then Some (n - 48)
      else if 97 \<le> n \<and> n \<le> 102 then Some (n - 87)
      else if 65 \<le> n \<and> n \<le> 70 then Some (n - 55)
      else None)"

definition is_hex :: "char \<Rightarrow> bool" where
  "is_hex c = (hex_value c \<noteq> None)"

text \<open>
  \<^verbatim>\<open>std::stoi(str, nullptr, 16)\<close>, that is \<^verbatim>\<open>strtol\<close> on \<^verbatim>\<open>str.c_str()\<close> in base 16: the
  C string ends at the first NUL; leading white space is skipped; an optional sign and an
  optional \<^verbatim>\<open>0x\<close> prefix are accepted; the longest run of hexadecimal digits is
  converted and whatever follows is ignored. With no digit at all
  \<^verbatim>\<open>std::invalid_argument\<close> is thrown, with a value outside \<^verbatim>\<open>int\<close>
  \<^verbatim>\<open>std::out_of_range\<close>.
\<close>

definition stoi16 :: "string \<Rightarrow> exn + int" where
  "stoi16 str =
     (let s0 = takeWhile (\<lambda>c. c \<noteq> CHR 0x00) str;
          s1 = dropWhile isspace s0;
          negative = (s1 \<noteq> [] \<and> hd s1 = CHR ''-'');
          s2 = (if s1 \<noteq> [] \<and> (hd s1 = CHR ''-'' \<or> hd s1 = CHR ''+'') then tl s1 else s1);
          s3 = (if length s2 \<ge> 3 \<and> s2 ! 0 = CHR ''0'' \<and> (s2 ! 1 = CHR ''x'' \<or> s2 ! 1 = CHR ''X'')
                   \<and> is_hex (s2 ! 2)
                then drop 2 s2 else s2);
          digits = takeWhile is_hex s3;
          magnitude = foldl (\<lambda>a c. 16 * a + int (the (hex_value c))) 0 digits;
          v = (if negative then - magnitude else magnitude)
      in if digits = [] then Inl InvalidArgument
         else if v < - 2147483648 \<or> 2147483647 < v then Inl OutOfRange
         else Inr v)"

section \<open>The chain engine: class \<^verbatim>\<open>AuditChain\<close>\<close>

datatype UserID = System | Admin | Operator | Service | Unauthorized

datatype Severity = Debug | Info | Warning | Error | Critical

text \<open>\<^verbatim>\<open>static_cast<int>\<close> of the two enumerations.\<close>

fun UserID_to_int :: "UserID \<Rightarrow> int" where
  "UserID_to_int System = 0"
| "UserID_to_int Admin = 1"
| "UserID_to_int Operator = 2"
| "UserID_to_int Service = 3"
| "UserID_to_int Unauthorized = 255"

fun Severity_to_int :: "Severity \<Rightarrow> int" where
  "Severity_to_int Debug = 0"
| "Severity_to_int Info = 1"
| "Severity_to_int Warning = 2"
| "Severity_to_int Error = 3"
| "Severity_to_int Critical = 4"

record AuditChain =
  device_id :: string
  previous_hash :: Hash
  sequence_number :: u64

definition AuditChain_new :: "string \<Rightarrow> AuditChain" where
  "AuditChain_new dev =
     \<lparr>device_id = dev, previous_hash = hash_string ''DTS_INIT'', sequence_number = 0\<rparr>"

definition hash_to_hex :: "Hash \<Rightarrow> string" where
  "hash_to_hex hs = concat (map (\<lambda>byte. pad_left 2 CHR ''0'' (show_hex byte)) hs)"

text \<open>
  The loop of \<^verbatim>\<open>hex_to_hash\<close> over the byte indices; the first \<^verbatim>\<open>substr\<close> or \<^verbatim>\<open>stoi\<close>
  that throws ends it. \<^verbatim>\<open>static_cast<uint8_t>\<close> reduces the parsed value modulo 256.
\<close>

fun hex_to_hash_loop :: "string \<Rightarrow> nat list \<Rightarrow> exn + Hash" where
  "hex_to_hash_loop hex [] = Inr []"
| "hex_to_hash_loop hex (i # rest) =
     (case substr hex (i * 2) 2 of
        Inl e \<Rightarrow> Inl e
      | Inr byte_hex \<Rightarrow>
          (case stoi16 byte_hex of
             Inl e \<Rightarrow> Inl e
           | Inr v \<Rightarrow>
               (case hex_to_hash_loop hex rest of
                  Inl e \<Rightarrow> Inl e
                | Inr bytes \<Rightarrow> Inr (wrap8 v # bytes))))"

definition hex_to_hash :: "string \<Rightarrow> exn + Hash" where
  "hex_to_hash hex = hex_to_hash_loop hex [0..<32]"

definition extract_hex :: "string \<Rightarrow> nat \<Rightarrow> exn + string" where
  "extract_hex json start_pos =
     (case find_char json quote start_pos of
        None \<Rightarrow> Inr []
      | Some end_pos \<Rightarrow> substr json start_pos (end_pos - start_pos))"

definition escape_char :: "char \<Rightarrow> string" where
  "escape_char c =
     (if c = quote then [backslash, quote]
      else if c = backslash then [backslash, backslash]
      else if c = CHR 0x08 then [backslash, CHR ''b'']
      else if c = CHR 0x0C then [backslash, CHR ''f'']
      else if c = CHR 0x0A then [backslash, CHR ''n'']
      else if c = CHR 0x0D then [backslash, CHR ''r'']
      else if c = CHR 0x09 then [backslash, CHR ''t'']
      else if (of_char c :: nat) < 0x20
        then [backslash, CHR ''u''] @ pad_left 4 CHR ''0'' (show_hex (of_char c))
      else [c])"

definition escape_json :: "string \<Rightarrow> string" where
  "escape_json str = concat (map escape_char str)"

text \<open>
  \<^verbatim>\<open>log\<close> reads the system clock; the model takes the formatted reading
  \<^verbatim>\<open>YYYY-MM-DDTHH:MM:SS.mmmZ\<close> as the argument \<open>timestamp\<close>. The result is the returned
  entry together with the updated chain state.
\<close>

definition log :: "AuditChain \<Rightarrow> string \<Rightarrow> string \<Rightarrow> UserID \<Rightarrow> Severity \<Rightarrow> string \<times> AuditChain" where
  \<open>log c timestamp message user_id severity =
     (let payload = device_id c @ ''|'' @ timestamp @ ''|'' @
                    show_int (UserID_to_int user_id) @ ''|'' @
                    show_int (Severity_to_int severity) @ ''|'' @
                    message @ ''|'' @ hash_to_hex (previous_hash c);
          current_hash = hash_string payload;
          log_entry = ''{'' @
                      ''"device_id":"'' @ device_id c @ ''",'' @
                      ''"timestamp":"'' @ timestamp @ ''",'' @
                      ''"user_id":'' @ show_int (UserID_to_int user_id) @ '','' @
                      ''"severity":'' @ show_int (Severity_to_int severity) @ '','' @
                      ''"message":"'' @ escape_json message @ ''",'' @
                      ''"previous_hash":"'' @ hash_to_hex (previous_hash c) @ ''",'' @
                      ''"chain_hash":"'' @ hash_to_hex current_hash @ [quote] @
                      ''}''
      in (log_entry, c\<lparr>previous_hash := current_hash,
                        sequence_number := wrap64 (sequence_number c + 1)\<rparr>))\<close>

definition get_chain_hash :: "AuditChain \<Rightarrow> string" where
  "get_chain_hash c = hash_to_hex (previous_hash c)"

definition get_sequence_number :: "AuditChain \<Rightarrow> u64" where
  "get_sequence_number c = sequence_number c"

text \<open>
  The loop of \<^verbatim>\<open>verify_chain\<close> over the entries, with \<^verbatim>\<open>expected_prev\<close> as the first
  argument. An exception of \<^verbatim>\<open>hex_to_hash\<close> leaves the function.
\<close>

fun verify_loop :: "Hash \<Rightarrow> string list \<Rightarrow> exn + bool" where
  \<open>verify_loop expected_prev [] = Inr True\<close>
| \<open>verify_loop expected_prev (entry # entries) =
     (case (find_str entry ''"previous_hash":"'', find_str entry ''"chain_hash":"'') of
        (Some prev_hash_pos, Some chain_hash_pos) \<Rightarrow>
          (case extract_hex entry (prev_hash_pos + 17) of
             Inl e \<Rightarrow> Inl e
           | Inr prev_hash_hex \<Rightarrow>
               if prev_hash_hex \<noteq> hash_to_hex expected_prev then Inr False
               else
                 (case extract_hex entry (chain_hash_pos + 14) of
                    Inl e \<Rightarrow> Inl e
                  | Inr chain_hash_hex \<Rightarrow>
                      (case hex_to_hash chain_hash_hex of
                         Inl e \<Rightarrow> Inl e
                       | Inr expected_next \<Rightarrow> verify_loop expected_next entries)))
      | _ \<Rightarrow> Inr False)\<close>

definition verify_chain :: "string list \<Rightarrow> exn + bool" where
  "verify_chain entries =
     (if entries = [] then Inr True else verify_loop (hash_string ''DTS_INIT'') entries)"

section \<open>Sequences of appends\<close>

text \<open>
  An event is what one call of \<^verbatim>\<open>log\<close> receives: the clock reading, the message, the
  actor and the severity. \<open>log_all\<close> appends the events in order on one chain and
  collects the returned entries, as a caller does with
  \<^verbatim>\<open>entries.push_back(logger.log(...))\<close>.
\<close>

type_synonym event = "string \<times> string \<times> UserID \<times> Severity"

definition log_event :: "AuditChain \<Rightarrow> event \<Rightarrow> string \<times> AuditChain" where
  "log_event c ev = (case ev of (timestamp, message, user_id, severity) \<Rightarrow>
                       log c timestamp message user_id severity)"

fun log_all :: "AuditChain \<Rightarrow> event list \<Rightarrow> string list \<times> AuditChain" where
  "log_all c [] = ([], c)"
| "log_all c (ev # evs) =
     (let (entry, c1) = log_event c ev;
          (entries, c2) = log_all c1 evs
      in (entry # entries, c2))"

section \<open>Predicates used in the statements\<close>

text \<open>A digest as \<^verbatim>\<open>std::array<uint8_t, 32>\<close> holds it: 32 values, each a byte.\<close>

definition valid_hash :: "Hash \<Rightarrow> bool" where
  "valid_hash hs = (length hs = 32 \<and> list_all (\<lambda>b. 0 \<le> b \<and> b < 256) hs)"

text \<open>A text without the double-quote character.\<close>

definition quote_free :: "string \<Rightarrow> bool" where
  "quote_free s = (quote \<notin> set s)"

text \<open>Lowercase hexadecimal text.\<close>

definition lower_hex_char :: "char \<Rightarrow> bool" where
  "lower_hex_char c = (c \<in> set ''0123456789abcdef'')"

definition lower_hex :: "string \<Rightarrow> bool" where
  "lower_hex s = list_all lower_hex_char s"

text \<open>The two lowercase digits that render one byte.\<close>

definition byte_hex :: "int \<Rightarrow> string" where
  "byte_hex b = [digit_char (nat b div 16), digit_char (nat b mod 16)]"

text \<open>
  Every double quote of a text directly follows a backslash; the first argument is the
  character before the text.
\<close>

fun quotes_escaped_after :: "char \<Rightarrow> string \<Rightarrow> bool" where
  "quotes_escaped_after p [] = True"
| "quotes_escaped_after p (c # cs) = ((c = quote \<longrightarrow> p = backslash) \<and> quotes_escaped_after c cs)"

definition quotes_escaped :: "string \<Rightarrow> bool" where
  "quotes_escaped s = quotes_escaped_after CHR ''{'' s"

text \<open>
  The text of a serialized entry as \<^verbatim>\<open>log\<close> lays it out, given the texts of its
  fields; \<open>entry_head\<close> is the part before the key of the \<^verbatim>\<open>previous_hash\<close> field.
\<close>

definition entry_head :: "string \<Rightarrow> string \<Rightarrow> string \<Rightarrow> string \<Rightarrow> string \<Rightarrow> string" where
  \<open>entry_head dev ts uid sev msg =
     ''{"device_id":"'' @ dev @ ''","timestamp":"'' @ ts @ ''","user_id":'' @ uid @
     '',"severity":'' @ sev @ '',"message":"'' @ msg @ ''",''\<close>

definition entry_text ::
  "string \<Rightarrow> string \<Rightarrow> string \<Rightarrow> string \<Rightarrow> string \<Rightarrow> string \<Rightarrow> string \<Rightarrow> string" where
  \<open>entry_text dev ts uid sev msg prev_hex chain_hex =
     entry_head dev ts uid sev msg @ ''"previous_hash":"'' @ prev_hex @
     ''","chain_hash":"'' @ chain_hex @ ''"}''\<close>

text \<open>
  The characters a formatted clock reading \<^verbatim>\<open>YYYY-MM-DDTHH:MM:SS.mmmZ\<close> is made of.
\<close>

definition timestamp_text :: "string \<Rightarrow> bool" where
  "timestamp_text ts = list_all (\<lambda>c. c \<in> set ''0123456789-:.TZ'') ts"

text \<open>
  The rolling digests of a chain that appends the events: the digest before the first
  append, then the digest after each append.
\<close>

fun digests :: "AuditChain \<Rightarrow> event list \<Rightarrow> Hash list" where
  "digests c [] = [previous_hash c]"
| "digests c (ev # evs) = previous_hash c # digests (snd (log_event c ev)) evs"



text \<open>
  The setting of the verification results: a chain whose rolling digest is a digest and
  whose device identity holds no double quote, and events whose clock readings are
  timestamp texts.
\<close>

definition plain_chain :: "AuditChain \<Rightarrow> event list \<Rightarrow> bool" where
  "plain_chain c evs =
     (valid_hash (previous_hash c) \<and> quote_free (device_id c) \<and>
      list_all (\<lambda>ev. timestamp_text (fst ev)) evs)"

text \<open>Three events used to instantiate the results on a concrete chain.\<close>

definition example_events :: "event list" where
  \<open>example_events =
     [(''2025-01-01T00:00:00.000Z'', ''boot'', System, Info),
      (''2025-01-01T00:00:01.000Z'', ''dose "5"'', Operator, Warning),
      (''2025-01-01T00:00:02.000Z'', ''alarm'', Service, Critical)]\<close>


section \<open>Streaming and one-shot hashing\<close>

lemma transform_bit_len_update:
  "transform (s\<lparr>bit_len := x\<rparr>) = (transform s)\<lparr>bit_len := x\<rparr>"
  by (simp add: transform_def Let_def)

lemma update_byte_bit_len_update:
  "update_byte (s\<lparr>bit_len := x\<rparr>) d = (update_byte s d)\<lparr>bit_len := x\<rparr>"
  by (simp add: update_byte_def Let_def transform_def)

lemma foldl_update_byte_bit_len_update:
  "foldl update_byte (s\<lparr>bit_len := x\<rparr>) ds = (foldl update_byte s ds)\<lparr>bit_len := x\<rparr>"
  by (induction ds arbitrary: s) (simp_all add: update_byte_bit_len_update)

lemma transform_bit_len: "bit_len (transform s) = bit_len s"
  by (simp add: transform_def Let_def)

lemma update_byte_bit_len: "bit_len (update_byte s d) = bit_len s"
  by (simp add: update_byte_def Let_def transform_bit_len)

lemma foldl_update_byte_bit_len: "bit_len (foldl update_byte s ds) = bit_len s"
  by (induction ds arbitrary: s) (simp_all add: update_byte_bit_len)

lemma wrap64_add_wrap64:
  "wrap64 (wrap64 (b + wrap64 x) + wrap64 y) = wrap64 (b + wrap64 (x + y))"
  by (simp add: wrap64_def mod_simps add.assoc)

lemma wrap64_add:
  "wrap64 (wrap64 (b + wrap64 (m * 8)) + wrap64 (n * 8)) = wrap64 (b + wrap64 ((m + n) * 8))"
  by (simp add: wrap64_add_wrap64 distrib_right)

lemma update_append: "update (update s A) B = update s (A @ B)"
proof -
  let ?s1 = "foldl update_byte s A"
  have "foldl update_byte (update s A) B =
        (foldl update_byte ?s1 B)\<lparr>bit_len := wrap64 (bit_len ?s1 + wrap64 (int (length A) * 8))\<rparr>"
    by (simp add: update_def Let_def foldl_update_byte_bit_len_update)
  then show ?thesis
    by (simp add: update_def Let_def foldl_update_byte_bit_len wrap64_add)
qed

lemma update_init_Nil: "update init [] = init"
  by (simp add: update_def init_def wrap64_def)

lemma foldl_update_init: "foldl update init chunks = update init (concat chunks)"
  by (induction chunks rule: rev_induct) (simp_all add: update_init_Nil update_append)

text \<open>
  Claim C7. Streaming and one-shot hashing agree: a fresh context updated with \<open>A\<close> and
  then with \<open>B\<close> and finalized gives the digest of \<open>A @ B\<close>, and the same holds for
  any number of \<^verbatim>\<open>update\<close> calls that cut the input into chunks in any way.
\<close>

theorem streaming_equals_one_shot:
  "finalize (update (update init A) B) = hash (A @ B) \<and>
   finalize (foldl update init chunks) = hash (concat chunks)"
  by (simp add: hash_def update_append foldl_update_init)

section \<open>Shape of a digest\<close>

lemma length_round_step: "length (round_step w v i) = length v"
  by (simp add: round_step_def Let_def split: list.split)

lemma length_foldl_round_step: "length (foldl (round_step w) v is) = length v"
  by (induction "is" arbitrary: v) (simp_all add: length_round_step)

lemma length_h_transform: "length (h (transform s)) = length (h s)"
  by (simp add: transform_def Let_def length_foldl_round_step)

lemma length_h_update_byte: "length (h (update_byte s d)) = length (h s)"
  by (simp add: update_byte_def Let_def length_h_transform)

lemma length_h_foldl_update_byte: "length (h (foldl update_byte s ds)) = length (h s)"
  by (induction ds arbitrary: s) (simp_all add: length_h_update_byte)

lemma length_h_update: "length (h (update s ds)) = length (h s)"
  by (simp add: update_def Let_def length_h_foldl_update_byte)

lemma length_concat_quads:
  "length (concat (map (\<lambda>x. [f1 x, f2 x, f3 x, f4 x]) xs)) = 4 * length xs"
  by (induction xs) simp_all

lemma length_finalize: "length (finalize s) = 4 * length (h s)"
  by (simp add: finalize_def Let_def length_concat_quads length_h_update)

lemma length_hash: "length (hash data) = 32"
  by (simp add: hash_def length_finalize length_h_update init_def)

lemma and_255_range: "0 \<le> (x::int) AND 255 \<and> x AND 255 < 256"
proof -
  have "x AND 255 \<le> 255" by (rule AND_upper2) simp
  then show ?thesis by simp
qed

lemma bytes_finalize: "list_all (\<lambda>b. 0 \<le> b \<and> b < 256) (finalize s)"
  by (simp add: finalize_def Let_def list_all_iff and_255_range)

lemma bytes_hash: "list_all (\<lambda>b. 0 \<le> b \<and> b < 256) (hash data)"
  by (simp add: hash_def bytes_finalize)

lemma valid_hash_hash: "valid_hash (hash data)"
  by (simp add: valid_hash_def length_hash bytes_hash)

lemma valid_hash_hash_string: "valid_hash (hash_string str)"
  by (simp add: hash_string_def valid_hash_hash)

section \<open>Hexadecimal rendering of bytes\<close>

declare hex_digits.simps [simp del] dec_digits.simps [simp del]

lemma hex_digits_small: "n < 16 \<Longrightarrow> hex_digits n = [digit_char n]"
  by (subst hex_digits.simps) simp

lemma hex_digits_large:
  "\<not> n < 16 \<Longrightarrow> hex_digits n = hex_digits (n div 16) @ [digit_char (n mod 16)]"
  by (subst hex_digits.simps) simp

lemma digit_char_cases:
  "d < 16 \<Longrightarrow> d = 0 \<or> d = 1 \<or> d = 2 \<or> d = 3 \<or> d = 4 \<or> d = 5 \<or> d = 6 \<or> d = 7 \<or>
     d = 8 \<or> d = 9 \<or> d = 10 \<or> d = 11 \<or> d = 12 \<or> d = 13 \<or> d = 14 \<or> d = (15::nat)"
  by arith

lemma of_char_digit_char:
  "d < 16 \<Longrightarrow> (of_char (digit_char d) :: nat) = (if d < 10 then 48 + d else 87 + d)"
  by (drule digit_char_cases) (auto simp: digit_char_def)

lemma hex_value_digit_char: "d < 16 \<Longrightarrow> hex_value (digit_char d) = Some d"
  by (simp add: hex_value_def of_char_digit_char Let_def)

lemma lower_hex_char_digit_char: "d < 16 \<Longrightarrow> lower_hex_char (digit_char d)"
  by (drule digit_char_cases) (auto simp: digit_char_def lower_hex_char_def)


lemma hex_digits_byte:
  assumes "n < 256"
  shows "pad_left 2 CHR ''0'' (hex_digits n) = [digit_char (n div 16), digit_char (n mod 16)]"
proof (cases "n < 16")
  case True
  then show ?thesis by (simp add: hex_digits_small pad_left_def digit_char_def)
next
  case False
  have "n div 16 < 16" using assms by simp
  with False show ?thesis by (simp add: hex_digits_large hex_digits_small pad_left_def)
qed

lemma show_hex_byte:
  assumes "0 \<le> b" "b < 256"
  shows "pad_left 2 CHR ''0'' (show_hex b) = [digit_char (nat b div 16), digit_char (nat b mod 16)]"
proof -
  have "wrap32 b = b" using assms by (simp add: wrap32_def)
  moreover have "nat b < 256" using assms by simp
  ultimately show ?thesis by (simp add: show_hex_def hex_digits_byte)
qed

section \<open>Digests as lowercase hexadecimal text\<close>

lemma hash_to_hex_Cons:
  "0 \<le> b \<Longrightarrow> b < 256 \<Longrightarrow> hash_to_hex (b # hs) = byte_hex b @ hash_to_hex hs"
  by (simp add: hash_to_hex_def show_hex_byte byte_hex_def)

lemma hash_to_hex_bytes:
  "list_all (\<lambda>b. 0 \<le> b \<and> b < 256) hs \<Longrightarrow> hash_to_hex hs = concat (map byte_hex hs)"
  by (induction hs) (simp_all add: hash_to_hex_Cons, simp add: hash_to_hex_def)

lemma length_concat_byte_hex: "length (concat (map byte_hex hs)) = 2 * length hs"
  by (induction hs) (simp_all add: byte_hex_def)

lemma length_hash_to_hex: "valid_hash hs \<Longrightarrow> length (hash_to_hex hs) = 64"
  by (simp add: valid_hash_def hash_to_hex_bytes length_concat_byte_hex)

lemma lower_hex_byte_hex:
  assumes "0 \<le> b" "b < 256"
  shows "lower_hex (byte_hex b)"
proof -
  have "nat b div 16 < 16" "nat b mod 16 < 16" using assms by simp_all
  then show ?thesis by (simp add: byte_hex_def lower_hex_def lower_hex_char_digit_char)
qed

lemma lower_hex_append: "lower_hex (s @ t) = (lower_hex s \<and> lower_hex t)"
  by (simp add: lower_hex_def)

lemma lower_hex_concat_byte_hex:
  "list_all (\<lambda>b. 0 \<le> b \<and> b < 256) hs \<Longrightarrow> lower_hex (concat (map byte_hex hs))"
  by (induction hs) (simp_all add: lower_hex_append lower_hex_byte_hex, simp add: lower_hex_def)

lemma lower_hex_hash_to_hex: "valid_hash hs \<Longrightarrow> lower_hex (hash_to_hex hs)"
  by (simp add: valid_hash_def hash_to_hex_bytes lower_hex_concat_byte_hex)

lemma lower_hex_char_not_quote: "lower_hex_char c \<Longrightarrow> c \<noteq> quote"
  by (auto simp: lower_hex_char_def quote_def)

lemma quote_free_lower_hex: "lower_hex s \<Longrightarrow> quote_free s"
  using lower_hex_char_not_quote by (auto simp: lower_hex_def quote_free_def list_all_iff)

lemma quote_free_hash_to_hex: "valid_hash hs \<Longrightarrow> quote_free (hash_to_hex hs)"
  by (simp add: quote_free_lower_hex lower_hex_hash_to_hex)

section \<open>Parsing digests back from hexadecimal text\<close>

lemma lower_hex_char_plain:
  "lower_hex_char c \<Longrightarrow> c \<noteq> CHR 0x00 \<and> \<not> isspace c \<and> c \<noteq> CHR ''-'' \<and> c \<noteq> CHR ''+''"
  by (auto simp: lower_hex_char_def isspace_def)

lemma is_hex_digit_char: "d < 16 \<Longrightarrow> is_hex (digit_char d)"
  by (simp add: is_hex_def hex_value_digit_char)

lemma stoi16_two_digits:
  assumes "a < 16" "b < 16"
  shows "stoi16 [digit_char a, digit_char b] = Inr (int (16 * a + b))"
proof -
  have p: "digit_char a \<noteq> CHR 0x00" "\<not> isspace (digit_char a)" "digit_char a \<noteq> CHR ''-''"
      "digit_char a \<noteq> CHR ''+''" "digit_char b \<noteq> CHR 0x00"
    using assms lower_hex_char_plain lower_hex_char_digit_char by blast+
  have hx: "is_hex (digit_char a)" "is_hex (digit_char b)"
    using assms by (simp_all add: is_hex_digit_char)
  have v: "hex_value (digit_char a) = Some a" "hex_value (digit_char b) = Some b"
    using assms by (simp_all add: hex_value_digit_char)
  show ?thesis
    using assms by (simp add: stoi16_def Let_def p hx v)
qed

lemma stoi16_byte_hex:
  assumes "0 \<le> b" "b < 256"
  shows "stoi16 (byte_hex b) = Inr b"
proof -
  have "nat b div 16 < 16" "nat b mod 16 < 16" using assms by simp_all
  then have "stoi16 (byte_hex b) = Inr (int (16 * (nat b div 16) + nat b mod 16))"
    unfolding byte_hex_def by (rule stoi16_two_digits)
  moreover have "int (16 * (nat b div 16) + nat b mod 16) = b" using assms by simp
  ultimately show ?thesis by simp
qed

lemma take_drop_concat_byte_hex:
  "i < length hs \<Longrightarrow> take 2 (drop (i * 2) (concat (map byte_hex hs))) = byte_hex (hs ! i)"
proof (induction hs arbitrary: i)
  case Nil
  then show ?case by simp
next
  case (Cons b hs)
  show ?case
  proof (cases i)
    case 0
    then show ?thesis by (simp add: byte_hex_def)
  next
    case (Suc j)
    then have "j < length hs" using Cons.prems by simp
    then have "take 2 (drop (j * 2) (concat (map byte_hex hs))) = byte_hex (hs ! j)"
      by (rule Cons.IH)
    moreover have "drop (Suc j * 2) (byte_hex b @ concat (map byte_hex hs)) =
        drop (j * 2) (concat (map byte_hex hs))"
      by (simp add: byte_hex_def)
    ultimately show ?thesis using Suc by simp
  qed
qed

lemma substr_concat_byte_hex:
  assumes "i < length hs"
  shows "substr (concat (map byte_hex hs)) (i * 2) 2 = Inr (byte_hex (hs ! i))"
proof -
  have "i * 2 \<le> length (concat (map byte_hex hs))"
    using assms by (simp add: length_concat_byte_hex)
  then show ?thesis using assms by (simp add: substr_def take_drop_concat_byte_hex)
qed

lemma hex_to_hash_loop_concat_byte_hex:
  assumes "list_all (\<lambda>b. 0 \<le> b \<and> b < 256) hs" and "list_all (\<lambda>i. i < length hs) idxs"
  shows "hex_to_hash_loop (concat (map byte_hex hs)) idxs = Inr (map (\<lambda>i. hs ! i) idxs)"
  using assms(2)
proof (induction idxs)
  case Nil
  then show ?case by simp
next
  case (Cons i idxs)
  then have i: "i < length hs" by simp
  then have "0 \<le> hs ! i \<and> hs ! i < 256"
    using assms(1) by (simp add: list_all_length)
  then have "stoi16 (byte_hex (hs ! i)) = Inr (hs ! i)" "wrap8 (hs ! i) = hs ! i"
    by (simp_all add: stoi16_byte_hex wrap8_def)
  then show ?case using Cons i by (simp add: substr_concat_byte_hex)
qed

lemma hex_to_hash_hash_to_hex:
  assumes "valid_hash hs"
  shows "hex_to_hash (hash_to_hex hs) = Inr hs"
proof -
  have b: "list_all (\<lambda>b. 0 \<le> b \<and> b < 256) hs" and l: "length hs = 32"
    using assms by (simp_all add: valid_hash_def)
  have "list_all (\<lambda>i. i < length hs) [0..<32]" using l by (simp add: list_all_iff)
  then have "hex_to_hash_loop (concat (map byte_hex hs)) [0..<32] = Inr (map (\<lambda>i. hs ! i) [0..<32])"
    using b by (rule hex_to_hash_loop_concat_byte_hex[rotated])
  moreover have "map (\<lambda>i. hs ! i) [0..<32] = hs" using l by (metis map_nth)
  ultimately show ?thesis using b by (simp add: hex_to_hash_def hash_to_hex_bytes)
qed

lemma hash_to_hex_inject:
  assumes "valid_hash a" "valid_hash b" "hash_to_hex a = hash_to_hex b"
  shows "a = b"
proof -
  have "hex_to_hash (hash_to_hex a) = hex_to_hash (hash_to_hex b)" using assms(3) by simp
  then show ?thesis using assms(1,2) by (simp add: hex_to_hash_hash_to_hex)
qed



section \<open>Searching a text for a quoted key\<close>

lemma find_str_skip_quote_free:
  assumes "key = quote # k'" and "quote_free a"
  shows "find_str (a @ rest) key = map_option (\<lambda>n. length a + n) (find_str rest key)"
  using assms(2)
proof (induction a)
  case Nil
  then show ?case by (simp add: option.map_ident)
next
  case (Cons c a)
  then have "c \<noteq> quote" "quote_free a" by (auto simp: quote_free_def)
  then show ?case using Cons.IH assms(1) by (simp add: option.map_comp comp_def)
qed

lemma prefix_chunk:
  assumes "quote_free a" "quote_free b"
  shows "prefix (b @ quote # r) (a @ quote # u) = (a = b \<and> prefix r u)"
  using assms
proof (induction a arbitrary: b)
  case Nil
  then show ?case by (cases b) (auto simp: quote_free_def)
next
  case (Cons c a)
  then show ?case by (cases b) (auto simp: quote_free_def)
qed

lemma quotes_escaped_after_split:
  "quotes_escaped_after p (a @ quote # r) \<Longrightarrow> (if a = [] then p else last a) = backslash"
  by (induction a arbitrary: p) auto

lemma quotes_escaped_after_quote_free:
  "quote_free a \<Longrightarrow>
     quotes_escaped_after p (a @ t) = quotes_escaped_after (if a = [] then p else last a) t"
  by (induction a arbitrary: p) (auto simp: quote_free_def)

lemma lower_hex_hex_digits: "lower_hex (hex_digits n)"
proof (induction n rule: hex_digits.induct)
  case (1 n)
  show ?case
  proof (cases "n < 16")
    case True
    then show ?thesis by (simp add: hex_digits_small lower_hex_def lower_hex_char_digit_char)
  next
    case False
    then have "lower_hex (hex_digits (n div 16))" by (rule "1.IH")
    moreover have "lower_hex_char (digit_char (n mod 16))" by (simp add: lower_hex_char_digit_char)
    ultimately show ?thesis using False by (simp add: hex_digits_large lower_hex_def)
  qed
qed

lemma lower_hex_pad_left: "lower_hex s \<Longrightarrow> lower_hex (pad_left n CHR ''0'' s)"
proof -
  have "lower_hex_char CHR ''0''" by (simp add: lower_hex_char_def)
  then have "lower_hex (replicate k CHR ''0'')" for k by (simp add: lower_hex_def list_all_iff)
  then show "lower_hex s \<Longrightarrow> lower_hex (pad_left n CHR ''0'' s)"
    by (simp add: pad_left_def lower_hex_append)
qed

lemma quote_free_unicode_escape: "quote_free ([backslash, CHR ''u''] @ pad_left 4 CHR ''0'' (show_hex x))"
proof -
  have "quote_free (pad_left 4 CHR ''0'' (show_hex x))"
    by (simp add: quote_free_lower_hex lower_hex_pad_left show_hex_def lower_hex_hex_digits)
  then show ?thesis by (simp add: quote_free_def quote_def backslash_def)
qed

lemma escape_char_cases:
  "(c = quote \<and> escape_char c = [backslash, quote]) \<or> (c \<noteq> quote \<and> quote_free (escape_char c))"
proof (cases "c = quote")
  case True
  then show ?thesis by (simp add: escape_char_def)
next
  case False
  have "quote_free (escape_char c)"
  proof (cases "escape_char c = [backslash, CHR ''u''] @ pad_left 4 CHR ''0'' (show_hex (of_char c))")
    case True
    then show ?thesis by (simp only: quote_free_unicode_escape)
  next
    case n: False
    then show ?thesis using False
      by (auto simp: escape_char_def quote_free_def quote_def backslash_def split: if_splits)
  qed
  then show ?thesis using False by simp
qed

lemma escape_char_not_Nil: "escape_char c \<noteq> []"
  by (simp add: escape_char_def)

lemma escape_json_Cons: "escape_json (c # m) = escape_char c @ escape_json m"
  by (simp add: escape_json_def)

lemma quotes_escaped_after_escape_json: "quotes_escaped_after p (escape_json m)"
proof (induction m arbitrary: p)
  case Nil
  then show ?case by (simp add: escape_json_def)
next
  case (Cons c m)
  consider "escape_char c = [backslash, quote]" | "quote_free (escape_char c)"
    using escape_char_cases by blast
  then show ?case
  proof cases
    case 1
    then show ?thesis using Cons by (simp add: escape_json_Cons backslash_def quote_def)
  next
    case 2
    then show ?thesis using Cons by (simp add: escape_json_Cons quotes_escaped_after_quote_free)
  qed
qed

lemma quotes_escaped_escape_json: "quotes_escaped (escape_json m)"
  by (simp add: quotes_escaped_def quotes_escaped_after_escape_json)
lemma not_prefix_key_escape_json:
  assumes key: "key = quote # body @ [quote, CHR '':'', quote]"
    and body: "quote_free body" "body \<noteq> []" "last body \<noteq> backslash"
  shows "\<not> prefix key (quote # escape_json m @ quote # CHR '','' # u)"
proof -
  let ?M = "escape_json m"
  let ?a = "takeWhile (\<lambda>c. c \<noteq> quote) ?M" and ?r = "dropWhile (\<lambda>c. c \<noteq> quote) ?M"
  have M: "?M = ?a @ ?r" by simp
  have a: "quote_free ?a" by (auto simp: quote_free_def dest: set_takeWhileD)
  have "prefix (body @ quote # [CHR '':'', quote]) (?M @ quote # CHR '','' # u) = False"
  proof (cases "?r")
    case Nil
    with M have "?M = ?a" by (metis append_Nil2)
    then have "quote_free ?M" using a by metis
    then show ?thesis using body(1) by (simp add: prefix_chunk)
  next
    case (Cons c r')
    then have "c = quote" by (metis (mono_tags, lifting) hd_dropWhile list.sel(1) list.simps(3))
    then have split: "?M = ?a @ quote # r'" using M Cons by simp
    have "quotes_escaped_after CHR ''{'' (?a @ quote # r')"
      using quotes_escaped_after_escape_json[of "CHR ''{''" m] split by simp
    then have "(if ?a = [] then CHR ''{'' else last ?a) = backslash"
      by (rule quotes_escaped_after_split)
    then have "?a \<noteq> body" using body(2,3) by (auto simp: backslash_def split: if_splits)
    moreover have "?M @ quote # CHR '','' # u = ?a @ quote # (r' @ quote # CHR '','' # u)"
      using split by (metis append.assoc append_Cons)
    ultimately show ?thesis using a body(1) by (simp only: prefix_chunk) simp
  qed
  then show ?thesis using key by simp
qed

lemma find_str_skip_escape_json:
  assumes key: "key = quote # body @ [quote, CHR '':'', quote]"
    and body: "quote_free body" "body \<noteq> []" "last body \<noteq> backslash"
  shows "find_str (escape_json m @ quote # CHR '','' # u) key =
         map_option (\<lambda>n. length (escape_json m) + n) (find_str (quote # CHR '','' # u) key)"
proof (induction m)
  case Nil
  then show ?case by (simp add: escape_json_def option.map_ident)
next
  case (Cons c m)
  let ?rest = "escape_json m @ quote # CHR '','' # u"
  have IH: "find_str ?rest key =
      map_option (\<lambda>n. length (escape_json m) + n) (find_str (quote # CHR '','' # u) key)"
    by (rule Cons.IH)
  consider "escape_char c = [backslash, quote]" | "quote_free (escape_char c)"
    using escape_char_cases by blast
  then show ?case
  proof cases
    case 1
    have "\<not> prefix key (quote # ?rest)"
      using key body by (rule not_prefix_key_escape_json)
    moreover have "\<not> prefix key (backslash # quote # ?rest)"
      using key by (simp add: backslash_def quote_def)
    ultimately have "find_str (backslash # quote # ?rest) key = map_option (\<lambda>n. 2 + n) (find_str ?rest key)"
      by (simp add: option.map_comp comp_def)
    then show ?thesis using 1 IH by (simp add: escape_json_Cons option.map_comp comp_def)
  next
    case 2
    have "find_str (escape_char c @ ?rest) key =
        map_option (\<lambda>n. length (escape_char c) + n) (find_str ?rest key)"
      using key 2 by (rule find_str_skip_quote_free)
    then show ?thesis using IH by (simp add: escape_json_Cons option.map_comp comp_def add.assoc)
  qed
qed

section \<open>Locating the digest fields of a serialized entry\<close>

lemma k1_skip:
  \<open>quote_free a \<Longrightarrow> find_str (a @ rest) ''"previous_hash":"'' =
     map_option (\<lambda>n. length a + n) (find_str rest ''"previous_hash":"'')\<close>
  by (rule find_str_skip_quote_free) (simp add: quote_def)

lemma k1_chunk:
  \<open>quote_free a \<Longrightarrow> prefix ''previous_hash":"'' (a @ CHR 0x22 # u) =
     (a = ''previous_hash'' \<and> prefix '':"'' u)\<close>
  using prefix_chunk[of a "''previous_hash''" "[CHR '':'', quote]" u]
  by (simp add: quote_def quote_free_def)

lemma k1_msg_no_prefix:
  \<open>prefix ''previous_hash":"'' (escape_json m @ CHR 0x22 # CHR '','' # u) = False\<close>
  using not_prefix_key_escape_json[of \<open>''"previous_hash":"''\<close> "''previous_hash''" m u]
  by (simp add: quote_def quote_free_def backslash_def)

lemma k1_msg_skip:
  \<open>find_str (escape_json m @ CHR 0x22 # CHR '','' # u) ''"previous_hash":"'' =
     map_option (\<lambda>n. length (escape_json m) + n) (find_str (CHR 0x22 # CHR '','' # u) ''"previous_hash":"'')\<close>
  using find_str_skip_escape_json[of \<open>''"previous_hash":"''\<close> "''previous_hash''" m u]
  by (simp add: quote_def quote_free_def backslash_def)

lemma find_previous_hash_key:
  assumes "quote_free dev" "quote_free ts" "quote_free uid" "quote_free sev"
  shows \<open>find_str (entry_head dev ts uid sev (escape_json m) @ ''"previous_hash":"'' @ rest)
            ''"previous_hash":"'' = Some (length (entry_head dev ts uid sev (escape_json m)))\<close>
  using assms
  by (simp add: entry_head_def k1_skip k1_chunk k1_msg_no_prefix k1_msg_skip)
lemma k2_skip:
  \<open>quote_free a \<Longrightarrow> find_str (a @ rest) ''"chain_hash":"'' =
     map_option (\<lambda>n. length a + n) (find_str rest ''"chain_hash":"'')\<close>
  by (rule find_str_skip_quote_free) (simp add: quote_def)

lemma k2_chunk:
  \<open>quote_free a \<Longrightarrow> prefix ''chain_hash":"'' (a @ CHR 0x22 # u) =
     (a = ''chain_hash'' \<and> prefix '':"'' u)\<close>
  using prefix_chunk[of a "''chain_hash''" "[CHR '':'', quote]" u]
  by (simp add: quote_def quote_free_def)

lemma k2_msg_no_prefix:
  \<open>prefix ''chain_hash":"'' (escape_json m @ CHR 0x22 # CHR '','' # u) = False\<close>
  using not_prefix_key_escape_json[of \<open>''"chain_hash":"''\<close> "''chain_hash''" m u]
  by (simp add: quote_def quote_free_def backslash_def)

lemma k2_msg_skip:
  \<open>find_str (escape_json m @ CHR 0x22 # CHR '','' # u) ''"chain_hash":"'' =
     map_option (\<lambda>n. length (escape_json m) + n) (find_str (CHR 0x22 # CHR '','' # u) ''"chain_hash":"'')\<close>
  using find_str_skip_escape_json[of \<open>''"chain_hash":"''\<close> "''chain_hash''" m u]
  by (simp add: quote_def quote_free_def backslash_def)

lemma find_chain_hash_key:
  assumes "quote_free dev" "quote_free ts" "quote_free uid" "quote_free sev" "quote_free P"
  shows \<open>find_str (entry_head dev ts uid sev (escape_json m) @ ''"previous_hash":"'' @ P @
                    ''","chain_hash":"'' @ rest) ''"chain_hash":"'' =
          Some (length (entry_head dev ts uid sev (escape_json m)) + 17 + length P + 2)\<close>
  using assms
  by (simp add: entry_head_def k2_skip k2_chunk k2_msg_no_prefix k2_msg_skip)

lemma extract_hex_field:
  assumes "quote_free P" and "n = length pre"
  shows "extract_hex (pre @ P @ quote # rest) n = Inr P"
proof -
  have "takeWhile (\<lambda>x. x \<noteq> quote) (P @ quote # rest) = P"
    using assms(1) by (subst takeWhile_append2) (auto simp: quote_free_def)
  then have "find_char (pre @ P @ quote # rest) quote n = Some (n + length P)"
    using assms(2) by (simp add: find_char_def)
  then show ?thesis using assms(2) by (simp add: extract_hex_def substr_def)
qed

lemma extract_hex_total: "\<exists>t. extract_hex e n = Inr t"
  by (auto simp: extract_hex_def find_char_def substr_def split: option.splits)

section \<open>One step of the verification loop\<close>

lemma verify_loop_previous_hash_mismatch:
  assumes \<open>find_str e ''"previous_hash":"'' = Some p\<close>
    and "extract_hex e (p + 17) = Inr t" and "t \<noteq> hash_to_hex x"
  shows "verify_loop x (e # es) = Inr False"
  using assms by (simp split: option.split)

lemma verify_loop_entry_text:
  assumes "quote_free dev" "quote_free ts" "quote_free uid" "quote_free sev"
    and "quote_free P" "quote_free C"
  shows "verify_loop x (entry_text dev ts uid sev (escape_json m) P C # es) =
     (if P \<noteq> hash_to_hex x then Inr False
      else case hex_to_hash C of Inl e \<Rightarrow> Inl e | Inr expected_next \<Rightarrow> verify_loop expected_next es)"
proof -
  let ?head = "entry_head dev ts uid sev (escape_json m)"
  let ?e = "entry_text dev ts uid sev (escape_json m) P C"
  have e1: \<open>?e = ?head @ ''"previous_hash":"'' @ (P @ ''","chain_hash":"'' @ C @ ''"}'')\<close>
    by (simp add: entry_text_def)
  have e2: \<open>?e = ?head @ ''"previous_hash":"'' @ P @ ''","chain_hash":"'' @ (C @ ''"}'')\<close>
    by (simp add: entry_text_def)
  have e3: \<open>?e = (?head @ ''"previous_hash":"'') @ P @ quote # ('',"chain_hash":"'' @ C @ ''"}'')\<close>
    by (simp add: entry_text_def quote_def)
  have e4: \<open>?e = (?head @ ''"previous_hash":"'' @ P @ ''","chain_hash":"'') @ C @ quote # ''}''\<close>
    by (simp add: entry_text_def quote_def)
  have f1: \<open>find_str ?e ''"previous_hash":"'' = Some (length ?head)\<close>
    unfolding e1 using assms(1-4) by (rule find_previous_hash_key)
  have f2: \<open>find_str ?e ''"chain_hash":"'' = Some (length ?head + 17 + length P + 2)\<close>
    unfolding e2 using assms(1-5) by (rule find_chain_hash_key)
  have x1: "extract_hex ?e (length ?head + 17) = Inr P"
    unfolding e3 using assms(5) by (rule extract_hex_field) simp
  have x2: "extract_hex ?e (length ?head + 17 + length P + 2 + 14) = Inr C"
    unfolding e4 using assms(6) by (rule extract_hex_field) simp
  show ?thesis using f1 f2 x1 x2 by (cases "P = hash_to_hex x") simp_all
qed

section \<open>States and entries of a chain\<close>

lemma log_fst:
  "fst (log c ts m u s) =
     entry_text (device_id c) ts (show_int (UserID_to_int u)) (show_int (Severity_to_int s))
       (escape_json m) (hash_to_hex (previous_hash c))
       (hash_to_hex (previous_hash (snd (log c ts m u s))))"
  by (simp add: log_def Let_def entry_text_def entry_head_def quote_def)

lemma log_snd:
  "snd (log c ts m u s) =
     c\<lparr>previous_hash :=
          hash_string (device_id c @ ''|'' @ ts @ ''|'' @ show_int (UserID_to_int u) @ ''|'' @
            show_int (Severity_to_int s) @ ''|'' @ m @ ''|'' @ hash_to_hex (previous_hash c)),
        sequence_number := wrap64 (sequence_number c + 1)\<rparr>"
  by (simp add: log_def Let_def)

lemma device_id_log_event: "device_id (snd (log_event c ev)) = device_id c"
  by (cases ev) (simp add: log_event_def log_snd)

lemma valid_hash_log_event: "valid_hash (previous_hash (snd (log_event c ev)))"
  by (cases ev) (simp add: log_event_def log_snd valid_hash_hash_string)

lemma sequence_number_log_event:
  "sequence_number (snd (log_event c ev)) = wrap64 (sequence_number c + 1)"
  by (cases ev) (simp add: log_event_def log_snd)

lemma log_all_Cons:
  "log_all c (ev # evs) =
     (fst (log_event c ev) # fst (log_all (snd (log_event c ev)) evs),
      snd (log_all (snd (log_event c ev)) evs))"
  by (simp add: Let_def split: prod.split)

lemma length_log_all: "length (fst (log_all c evs)) = length evs"
  by (induction evs arbitrary: c) (simp_all add: log_all_Cons del: log_all.simps(2))

lemma length_digests: "length (digests c evs) = Suc (length evs)"
  by (induction evs arbitrary: c) simp_all

lemma digests_not_Nil: "digests c evs \<noteq> []"
  by (cases evs) simp_all

lemma last_digests: "last (digests c evs) = previous_hash (snd (log_all c evs))"
  by (induction evs arbitrary: c)
    (simp_all add: log_all_Cons digests_not_Nil del: log_all.simps(2))

lemma valid_hash_digests:
  "valid_hash (previous_hash c) \<Longrightarrow> list_all valid_hash (digests c evs)"
  by (induction evs arbitrary: c) (simp_all add: valid_hash_log_event)

lemma quote_free_show_UserID: "quote_free (show_int (UserID_to_int u))"
  by (cases u; simp; code_simp)
lemma quote_free_show_Severity: "quote_free (show_int (Severity_to_int s))"
  by (cases s; simp; code_simp)
lemma quote_free_timestamp_text:
  assumes "timestamp_text ts"
  shows "quote_free ts"
proof -
  have "False" if "quote \<in> set ts"
  proof -
    have "quote \<in> set ''0123456789-:.TZ''"
      using assms that unfolding timestamp_text_def list_all_iff by blast
    then show False by (simp add: quote_def)
  qed
  then show ?thesis unfolding quote_free_def by blast
qed

section \<open>The state of a chain after a sequence of appends\<close>


lemma valid_hash_log_all:
  "valid_hash (previous_hash c) \<Longrightarrow> valid_hash (previous_hash (snd (log_all c evs)))"
  by (induction evs arbitrary: c)
    (simp_all add: log_all_Cons valid_hash_log_event del: log_all.simps(2))

lemma log_all_snoc:
  "log_all c (evs @ [ev]) =
     (fst (log_all c evs) @ [fst (log_event (snd (log_all c evs)) ev)],
      snd (log_event (snd (log_all c evs)) ev))"
  by (induction evs arbitrary: c) (simp_all add: log_all_Cons del: log_all.simps(2))

lemma wrap64_Suc: "wrap64 (wrap64 x + 1) = wrap64 (x + 1)"
  by (simp add: wrap64_def mod_simps)

lemma wrap64_sequence_number_log_all:
  "wrap64 (sequence_number (snd (log_all c evs))) = wrap64 (sequence_number c + int (length evs))"
proof (induction evs rule: rev_induct)
  case Nil
  then show ?case by simp
next
  case (snoc ev evs)
  have "wrap64 (sequence_number (snd (log_all c (evs @ [ev])))) =
      wrap64 (wrap64 (sequence_number (snd (log_all c evs))) + 1)"
    by (simp add: log_all_snoc sequence_number_log_event wrap64_Suc) (simp add: wrap64_def)
  also have "\<dots> = wrap64 (wrap64 (sequence_number c + int (length evs)) + 1)"
    using snoc by simp
  also have "\<dots> = wrap64 (sequence_number c + int (length evs) + 1)"
    by (rule wrap64_Suc)
  finally show ?case by (simp add: ac_simps)
qed

lemma sequence_number_in_range:
  "sequence_number (snd (log_all (AuditChain_new dev) evs)) =
     wrap64 (sequence_number (snd (log_all (AuditChain_new dev) evs)))"
proof (cases evs rule: rev_cases)
  case Nil
  then show ?thesis by (simp add: AuditChain_new_def wrap64_def)
next
  case (snoc evs' ev)
  then show ?thesis by (simp add: log_all_snoc sequence_number_log_event wrap64_def)
qed

lemma sequence_number_new_log_all:
  "sequence_number (snd (log_all (AuditChain_new dev) evs)) = int (length evs) mod 2 ^ 64"
proof -
  have "sequence_number (snd (log_all (AuditChain_new dev) evs)) =
      wrap64 (sequence_number (AuditChain_new dev) + int (length evs))"
    using sequence_number_in_range[of dev evs] wrap64_sequence_number_log_all[of "AuditChain_new dev" evs]
    by simp
  then show ?thesis by (simp add: AuditChain_new_def wrap64_def)
qed

lemma entry_text_ends_with_chain_hash:
  \<open>\<exists>front. entry_text dev ts uid sev msg P C = front @ ''"chain_hash":"'' @ C @ ''"}''\<close>
proof -
  have \<open>entry_text dev ts uid sev msg P C =
      (entry_head dev ts uid sev msg @ ''"previous_hash":"'' @ P @ ''",'') @
      ''"chain_hash":"'' @ C @ ''"}''\<close>
    by (simp add: entry_text_def)
  then show ?thesis by blast
qed

lemma last_entry_holds_rolling_digest:
  assumes "evs \<noteq> []"
  shows \<open>\<exists>front. last (fst (log_all c evs)) =
           front @ ''"chain_hash":"'' @ get_chain_hash (snd (log_all c evs)) @ ''"}''\<close>
proof -
  obtain evs' ev where evs: "evs = evs' @ [ev]" using assms by (meson rev_exhaust)
  obtain ts m u s where ev: "ev = (ts, m, u, s)" by (metis prod_cases4)
  let ?c = "snd (log_all c evs')"
  have "last (fst (log_all c evs)) = fst (log ?c ts m u s)"
    and "snd (log_all c evs) = snd (log ?c ts m u s)"
    using evs ev by (simp_all add: log_all_snoc log_event_def)
  then show ?thesis
    using entry_text_ends_with_chain_hash by (simp add: log_fst get_chain_hash_def)
qed

lemma get_chain_hash_reads_back:
  "hex_to_hash (get_chain_hash (snd (log_all (AuditChain_new dev) evs))) =
     Inr (previous_hash (snd (log_all (AuditChain_new dev) evs)))"
proof -
  have "valid_hash (previous_hash (AuditChain_new dev))"
    by (simp add: AuditChain_new_def valid_hash_hash_string)
  then have "valid_hash (previous_hash (snd (log_all (AuditChain_new dev) evs)))"
    by (rule valid_hash_log_all)
  then show ?thesis by (simp add: get_chain_hash_def hex_to_hash_hash_to_hex)
qed

lemma sequence_number_below_wrap:
  assumes "length evs < 2 ^ 64" and "i \<le> length evs"
  shows "get_sequence_number (snd (log_all (AuditChain_new dev) (take i evs))) = int i"
proof -
  have "int i < 2 ^ 64" using assms by simp
  then have "int i mod 2 ^ 64 = int i" by simp
  moreover have "length (take i evs) = i" using assms(2) by simp
  ultimately show ?thesis
    by (simp only: get_sequence_number_def sequence_number_new_log_all)
qed

text \<open>
  Claim C6. A fresh chain has the digest of \<^verbatim>\<open>DTS_INIT\<close> as its rolling digest and 0 as
  its sequence counter. The counter is a \<^verbatim>\<open>uint64_t\<close>: after \<open>n\<close> appends it holds \<open>n\<close>
  modulo \<open>2\<^sup>6\<^sup>4\<close>, so for every sequence of fewer than \<open>2\<^sup>6\<^sup>4\<close> appends the counter after
  append \<open>i\<close> is exactly \<open>i\<close>. After every append the rolling digest is the one rendered
  in the \<^verbatim>\<open>chain_hash\<close> field of the entry appended last (the genesis digest when nothing
  has been appended), and \<^verbatim>\<open>hex_to_hash\<close> reads it back from that text.
\<close>

theorem chain_state_after_appends:
  \<open>previous_hash (AuditChain_new dev) = hash_string ''DTS_INIT'' \<and>
   get_sequence_number (AuditChain_new dev) = 0 \<and>
   get_sequence_number (snd (log_all (AuditChain_new dev) evs)) = int (length evs) mod 2 ^ 64 \<and>
   (length evs < 2 ^ 64 \<longrightarrow>
      (\<forall>i\<le>length evs.
         get_sequence_number (snd (log_all (AuditChain_new dev) (take i evs))) = int i)) \<and>
   (if evs = [] then previous_hash (snd (log_all (AuditChain_new dev) evs)) = hash_string ''DTS_INIT''
    else \<exists>front. last (fst (log_all (AuditChain_new dev) evs)) =
           front @ ''"chain_hash":"'' @ get_chain_hash (snd (log_all (AuditChain_new dev) evs)) @ ''"}'') \<and>
   hex_to_hash (get_chain_hash (snd (log_all (AuditChain_new dev) evs))) =
     Inr (previous_hash (snd (log_all (AuditChain_new dev) evs)))\<close>
proof -
  have a: "previous_hash (AuditChain_new dev) = hash_string ''DTS_INIT''"
    and b: "get_sequence_number (AuditChain_new dev) = 0"
    by (simp_all add: AuditChain_new_def get_sequence_number_def)
  have c: "get_sequence_number (snd (log_all (AuditChain_new dev) evs)) = int (length evs) mod 2 ^ 64"
    by (simp add: get_sequence_number_def sequence_number_new_log_all)
  have d: "length evs < 2 ^ 64 \<longrightarrow>
      (\<forall>i\<le>length evs.
         get_sequence_number (snd (log_all (AuditChain_new dev) (take i evs))) = int i)"
    using sequence_number_below_wrap by blast
  have e: \<open>if evs = [] then previous_hash (snd (log_all (AuditChain_new dev) evs)) = hash_string ''DTS_INIT''
    else \<exists>front. last (fst (log_all (AuditChain_new dev) evs)) =
           front @ ''"chain_hash":"'' @ get_chain_hash (snd (log_all (AuditChain_new dev) evs)) @ ''"}''\<close>
    using last_entry_holds_rolling_digest[of evs "AuditChain_new dev"]
    by (simp add: AuditChain_new_def)
  show ?thesis
    using a b c d e get_chain_hash_reads_back[of dev evs] by (intro conjI)
qed

text \<open>
  The theorem on the three example events: the counter is 1, 2 and 3 after the first,
  the second and the third append.
\<close>

theorem chain_state_after_appends_witness:
  "length example_events < 2 ^ 64 \<and>
   get_sequence_number (snd (log_all (AuditChain_new ''DEV-1'') (take 1 example_events))) = 1 \<and>
   get_sequence_number (snd (log_all (AuditChain_new ''DEV-1'') (take 2 example_events))) = 2 \<and>
   get_sequence_number (snd (log_all (AuditChain_new ''DEV-1'') (take 3 example_events))) = 3"
proof -
  have l: "length example_events = 3" by (simp add: example_events_def)
  then have small: "length example_events < 2 ^ 64" by simp
  have "length example_events < 2 ^ 64 \<longrightarrow>
      (\<forall>i\<le>length example_events.
         get_sequence_number (snd (log_all (AuditChain_new ''DEV-1'') (take i example_events))) = int i)"
    using chain_state_after_appends[of "''DEV-1''" example_events] by (elim conjE)
  then have all: "\<forall>i\<le>length example_events.
      get_sequence_number (snd (log_all (AuditChain_new ''DEV-1'') (take i example_events))) = int i"
    using small by (rule mp)
  have "get_sequence_number (snd (log_all (AuditChain_new ''DEV-1'') (take 1 example_events))) = int 1"
    "get_sequence_number (snd (log_all (AuditChain_new ''DEV-1'') (take 2 example_events))) = int 2"
    "get_sequence_number (snd (log_all (AuditChain_new ''DEV-1'') (take 3 example_events))) = int 3"
    using all[rule_format, of 1] all[rule_format, of 2] all[rule_format, of 3] l
    by (simp_all only: numeral_le_iff one_le_numeral semiring_norm)
  then show ?thesis using small by simp
qed

section \<open>The digest and the rendering of an entry\<close>


section \<open>Verification of an untouched export\<close>

lemma digests_0: "digests c evs ! 0 = previous_hash c"
  by (cases evs) simp_all

lemma log_all_nth:
  assumes "i < length evs"
  shows "fst (log_all c evs) ! i =
     (case evs ! i of (ts, m, u, s) \<Rightarrow>
        entry_text (device_id c) ts (show_int (UserID_to_int u)) (show_int (Severity_to_int s))
          (escape_json m) (hash_to_hex (digests c evs ! i)) (hash_to_hex (digests c evs ! Suc i)))"
  using assms
proof (induction evs arbitrary: c i)
  case Nil
  then show ?case by simp
next
  case (Cons ev evs)
  obtain ts m u s where ev: "ev = (ts, m, u, s)" by (metis prod_cases4)
  show ?case
  proof (cases i)
    case 0
    then show ?thesis
      using ev by (simp add: log_all_Cons log_event_def log_fst digests_0 del: log_all.simps(2))
  next
    case (Suc j)
    then have "j < length evs" using Cons.prems by simp
    then show ?thesis
      using Suc Cons.IH[of j "snd (log_event c ev)"]
      by (simp add: log_all_Cons device_id_log_event del: log_all.simps(2))
  qed
qed

lemma plain_chain_Cons:
  "plain_chain c (ev # evs) \<Longrightarrow> plain_chain (snd (log_event c ev)) evs"
  by (simp add: plain_chain_def valid_hash_log_event device_id_log_event)

lemma plain_chain_new:
  "quote_free dev \<Longrightarrow> list_all (\<lambda>ev. timestamp_text (fst ev)) evs \<Longrightarrow>
     plain_chain (AuditChain_new dev) evs"
  by (simp add: plain_chain_def AuditChain_new_def valid_hash_hash_string)

lemma valid_hash_digests_nth:
  assumes "plain_chain c evs" "i \<le> length evs"
  shows "valid_hash (digests c evs ! i)"
proof -
  have "list_all valid_hash (digests c evs)"
    using assms(1) by (simp add: plain_chain_def valid_hash_digests)
  then show ?thesis using assms(2) by (simp add: list_all_length length_digests)
qed

lemma verify_loop_honest_step:
  assumes pc: "plain_chain c evs" and i: "i < length evs" and x: "valid_hash x"
  shows "verify_loop x (fst (log_all c evs) ! i # rest) =
     (if digests c evs ! i \<noteq> x then Inr False else verify_loop (digests c evs ! Suc i) rest)"
proof -
  obtain ts m u s where ev: "evs ! i = (ts, m, u, s)" by (metis prod_cases4)
  let ?P = "hash_to_hex (digests c evs ! i)" and ?C = "hash_to_hex (digests c evs ! Suc i)"
  have e: "fst (log_all c evs) ! i =
      entry_text (device_id c) ts (show_int (UserID_to_int u)) (show_int (Severity_to_int s))
        (escape_json m) ?P ?C"
    using log_all_nth[OF i, of c] ev by simp
  have vP: "valid_hash (digests c evs ! i)" and vC: "valid_hash (digests c evs ! Suc i)"
    using pc i by (simp_all add: valid_hash_digests_nth)
  have "timestamp_text (fst (evs ! i))"
    using pc i by (simp add: plain_chain_def list_all_length)
  then have ts: "quote_free ts" using ev by (simp add: quote_free_timestamp_text)
  have dev: "quote_free (device_id c)" using pc by (simp add: plain_chain_def)
  have step: "verify_loop x (fst (log_all c evs) ! i # rest) =
      (if ?P \<noteq> hash_to_hex x then Inr False
       else case hex_to_hash ?C of Inl e \<Rightarrow> Inl e | Inr n \<Rightarrow> verify_loop n rest)"
    unfolding e
    by (rule verify_loop_entry_text)
      (simp_all add: dev ts quote_free_show_UserID quote_free_show_Severity
        quote_free_hash_to_hex vP vC)
  have "(?P \<noteq> hash_to_hex x) = (digests c evs ! i \<noteq> x)"
    using hash_to_hex_inject[OF vP x] by auto
  then show ?thesis using step by (simp add: hex_to_hash_hash_to_hex vC)
qed

lemma verify_loop_honest_run:
  assumes pc: "plain_chain c evs" and "t \<le> i" "i \<le> length evs"
  shows "verify_loop (digests c evs ! t) (map ((!) (fst (log_all c evs))) [t..<i] @ rest) =
         verify_loop (digests c evs ! i) rest"
  using assms(2,3)
proof (induction "i - t" arbitrary: t)
  case 0
  then show ?case by simp
next
  case (Suc n)
  then have t: "t < i" "t < length evs" by simp_all
  have up: "[t..<i] = t # [Suc t..<i]" using t by (simp add: upt_rec)
  have "valid_hash (digests c evs ! t)" using pc t by (simp add: valid_hash_digests_nth)
  then have "verify_loop (digests c evs ! t) (map ((!) (fst (log_all c evs))) [t..<i] @ rest) =
      verify_loop (digests c evs ! Suc t) (map ((!) (fst (log_all c evs))) [Suc t..<i] @ rest)"
    using verify_loop_honest_step[OF pc t(2)] up by simp
  moreover have "n = i - Suc t" "Suc t \<le> i" using Suc.hyps(2) t by simp_all
  ultimately show ?case using Suc.hyps(1)[of "Suc t"] Suc.prems by simp
qed


lemma verify_loop_honest:
  assumes "plain_chain c evs"
  shows "verify_loop (previous_hash c) (fst (log_all c evs)) = Inr True"
proof -
  let ?es = "fst (log_all c evs)"
  have "verify_loop (digests c evs ! 0) (map ((!) ?es) [0..<length evs] @ []) =
      verify_loop (digests c evs ! length evs) []"
    using assms by (rule verify_loop_honest_run) simp_all
  moreover have "map ((!) ?es) [0..<length evs] = ?es"
    using map_nth[of ?es] by (simp add: length_log_all)
  ultimately show ?thesis by (simp add: digests_0)
qed

section \<open>Removed and rearranged entries\<close>






section \<open>Altered digest texts\<close>






section \<open>Altered entries in an export\<close>





section \<open>Tampering with an export\<close>



section \<open>A device identity that holds a key of the entry text\<close>

text \<open>
  \<^verbatim>\<open>log\<close> writes the device identity into the entry as it is, while the message goes
  through \<^verbatim>\<open>escape_json\<close>. With the device identity \<^verbatim>\<open>"previous_hash":"\<close> the first
  occurrence of that key in an entry is the one inside the \<^verbatim>\<open>device_id\<close> field, at
  position 14, and the text up to the next double quote is empty.
\<close>

lemma find_key_inside_device_id:
  \<open>find_str (''{"device_id":""previous_hash":"'' @ rest) ''"previous_hash":"'' = Some 14\<close>
  by simp

lemma extract_hex_inside_device_id:
  \<open>extract_hex (''{"device_id":""previous_hash":"",'' @ rest) 31 = Inr []\<close>
  by (simp add: extract_hex_def find_char_def substr_def quote_def)

lemma hash_to_hex_not_Nil: "valid_hash x \<Longrightarrow> hash_to_hex x \<noteq> []"
  using length_hash_to_hex[of x] by auto

lemma entry_for_device_id_with_key:
  \<open>\<exists>rest. fst (log c ts m u s) = ''{"device_id":"'' @ device_id c @ ''",'' @ rest\<close>
  by (simp add: log_def Let_def)

lemma verify_loop_device_id_with_key:
  assumes \<open>device_id c = ''"previous_hash":"''\<close> and "valid_hash x"
  shows "verify_loop x (fst (log_event c ev) # es) = Inr False"
proof -
  obtain ts m u s where ev: "ev = (ts, m, u, s)" by (cases ev)
  obtain rest where e: \<open>fst (log c ts m u s) = ''{"device_id":""previous_hash":"",'' @ rest\<close>
    using entry_for_device_id_with_key[of c ts m u s] assms(1) by auto
  have \<open>find_str (fst (log c ts m u s)) ''"previous_hash":"'' = Some 14\<close>
    using find_key_inside_device_id[of "CHR 0x22 # CHR '','' # rest"] e by simp
  moreover have "extract_hex (fst (log c ts m u s)) (14 + 17) = Inr []"
    using extract_hex_inside_device_id[of rest] e by simp
  moreover have "[] \<noteq> hash_to_hex x"
    using hash_to_hex_not_Nil[OF assms(2)] by simp
  ultimately have "verify_loop x (fst (log c ts m u s) # es) = Inr False"
    by (rule verify_loop_previous_hash_mismatch)
  then show ?thesis by (simp add: ev log_event_def)
qed

lemma verify_chain_device_id_with_key:
  \<open>verify_chain (fst (log_all (AuditChain_new ''"previous_hash":"'') (ev # evs))) = Inr False\<close>
proof -
  have "verify_loop (hash_string ''DTS_INIT'')
          (fst (log_event (AuditChain_new ''\"previous_hash\":\"'') ev) #
           fst (log_all (snd (log_event (AuditChain_new ''\"previous_hash\":\"'') ev)) evs)) = Inr False"
    by (rule verify_loop_device_id_with_key)
       (simp_all add: AuditChain_new_def valid_hash_hash_string)
  then show ?thesis
    by (simp add: verify_chain_def log_all_Cons del: log_all.simps(2) verify_loop.simps)
qed

lemma verify_chain_accepts_plain_export:
  assumes "quote_free dev" and "list_all (\<lambda>ev. timestamp_text (fst ev)) evs"
  shows "verify_chain (fst (log_all (AuditChain_new dev) evs)) = Inr True"
proof -
  have "plain_chain (AuditChain_new dev) evs" using assms by (rule plain_chain_new)
  then have "verify_loop (previous_hash (AuditChain_new dev)) (fst (log_all (AuditChain_new dev) evs)) =
      Inr True"
    by (rule verify_loop_honest)
  then show ?thesis by (simp add: verify_chain_def AuditChain_new_def)
qed

text \<open>
  Claim C1. An untouched export of a chain whose device identity holds no double quote
  is accepted, whatever the messages (lemma \<open>verify_chain_accepts_plain_export\<close>). The
  export of a single append on a chain constructed with the device
  identity \<^verbatim>\<open>"previous_hash":"\<close>, untouched, is rejected by \<^verbatim>\<open>verify_chain\<close>: the claim
  says that it is accepted. The same append on a chain of the device \<^verbatim>\<open>DEV-1\<close> gives an
  export that is accepted.
\<close>

theorem honest_export_fails_verification:
  \<open>verify_chain (fst (log_all (AuditChain_new ''"previous_hash":"'')
      [(''2025-01-01T00:00:00.000Z'', ''boot'', System, Info)])) = Inr False \<and>
   verify_chain (fst (log_all (AuditChain_new ''DEV-1'')
      [(''2025-01-01T00:00:00.000Z'', ''boot'', System, Info)])) = Inr True\<close>
proof (rule conjI)
  show \<open>verify_chain (fst (log_all (AuditChain_new ''"previous_hash":"'')
      [(''2025-01-01T00:00:00.000Z'', ''boot'', System, Info)])) = Inr False\<close>
    by (rule verify_chain_device_id_with_key)
  show "verify_chain (fst (log_all (AuditChain_new ''DEV-1'')
      [(''2025-01-01T00:00:00.000Z'', ''boot'', System, Info)])) = Inr True"
    by (rule verify_chain_accepts_plain_export)
      (simp_all add: quote_free_def quote_def timestamp_text_def)
qed

text \<open>
  Claim C10. In the entry appended on a chain with the device identity
  \<^verbatim>\<open>"previous_hash":"\<close>, the search of \<^verbatim>\<open>verify_chain\<close> for the key \<^verbatim>\<open>"previous_hash":"\<close>
  stops at position 14, inside the \<^verbatim>\<open>device_id\<close> field that begins after the first 14
  characters, and \<^verbatim>\<open>extract_hex\<close> returns the empty text from there; the field that
  holds the previous digest begins at position 114. The claim says that the search
  locates the genuine field in every entry that \<^verbatim>\<open>log\<close> produces.
\<close>

theorem key_search_redirected_by_device_id:
  \<open>let c = AuditChain_new ''"previous_hash":"'';
        entry = fst (log c ''2025-01-01T00:00:00.000Z'' ''boot'' System Info)
    in take 14 entry = ''{"device_id":"'' \<and>
       find_str entry ''"previous_hash":"'' = Some 14 \<and>
       extract_hex entry (14 + 17) = Inr [] \<and>
       take 17 (drop 114 entry) = ''"previous_hash":"'' \<and>
       take 64 (drop (114 + 17) entry) = hash_to_hex (previous_hash c) \<and>
       length (hash_to_hex (previous_hash c)) = 64\<close>
proof -
  let ?c = \<open>AuditChain_new ''"previous_hash":"''\<close>
  let ?e = \<open>fst (log ?c ''2025-01-01T00:00:00.000Z'' ''boot'' System Info)\<close>
  let ?P = "hash_to_hex (previous_hash ?c)"
  have v: "valid_hash (previous_hash ?c)"
    by (simp add: AuditChain_new_def valid_hash_hash_string)
  have l: "length ?P = 64" using v by (rule length_hash_to_hex)
  have u: "show_int 0 = ''0''" "show_int 1 = ''1''"
    by code_simp+
  have m: "escape_json ''boot'' = ''boot''" by code_simp
  let ?rest = \<open>''","chain_hash":"'' @ hash_to_hex (previous_hash (snd (log ?c ''2025-01-01T00:00:00.000Z'' ''boot'' System Info))) @ ''"}''\<close>
  have e: \<open>?e =
     ''{"device_id":""previous_hash":"","timestamp":"2025-01-01T00:00:00.000Z","user_id":0,'' @
     ''"severity":1,"message":"boot","previous_hash":"'' @ ?P @ ?rest\<close>
    by (simp add: log_fst entry_text_def entry_head_def u m AuditChain_new_def)
  have a: \<open>take 14 ?e = ''{"device_id":"''\<close> by (simp add: e)
  have b: \<open>find_str ?e ''"previous_hash":"'' = Some 14\<close>
    by (simp add: e)
  have c: "extract_hex ?e (14 + 17) = Inr []"
    by (simp add: e extract_hex_def find_char_def substr_def quote_def)
  have d: \<open>take 17 (drop 114 ?e) = ''"previous_hash":"''\<close> by (simp add: e)
  have f: "take 64 (drop (114 + 17) ?e) = ?P" by (simp add: e l)
  show ?thesis unfolding Let_def using a b c d f l by (intro conjI)
qed

section \<open>The message in the digest and in the entry\<close>

lemma length_escape_char_ge: "1 \<le> length (escape_char ch)"
  by (simp add: escape_char_def)

lemma length_escape_char_special:
  assumes "ch = quote \<or> ch = backslash \<or> (of_char ch :: nat) < 0x20"
  shows "2 \<le> length (escape_char ch)"
  using assms by (auto simp: escape_char_def)

lemma length_escape_json_ge: "length m \<le> length (escape_json m)"
proof (induction m)
  case Nil
  show ?case by (simp add: escape_json_def)
next
  case (Cons a m)
  then show ?case using length_escape_char_ge[of a] by (simp add: escape_json_Cons)
qed

lemma length_escape_json_gt:
  assumes "\<exists>ch\<in>set m. ch = quote \<or> ch = backslash \<or> (of_char ch :: nat) < 0x20"
  shows "length m < length (escape_json m)"
  using assms
proof (induction m)
  case Nil
  then show ?case by simp
next
  case (Cons a m)
  show ?case
  proof (cases "a = quote \<or> a = backslash \<or> (of_char a :: nat) < 0x20")
    case True
    then show ?thesis
      using length_escape_char_special[of a] length_escape_json_ge[of m]
      by (simp add: escape_json_Cons)
  next
    case False
    then have "length m < length (escape_json m)" using Cons by auto
    then show ?thesis using length_escape_char_ge[of a] by (simp add: escape_json_Cons)
  qed
qed

text \<open>
  Claim C9. \<^verbatim>\<open>log\<close> hashes the payload that holds the message as it was passed, and
  writes \<^verbatim>\<open>escape_json\<close> of the message into the entry. When the message holds a double
  quote, a backslash or a character below \<^verbatim>\<open>0x20\<close>, the text of the message field is
  longer than the message, and the payload built from the text of the field is not the
  payload that was hashed: the digest of an entry is the digest of the payload with
  the unescaped message.
\<close>

theorem entry_digest_over_raw_message:
  assumes "\<exists>ch\<in>set message. ch = quote \<or> ch = backslash \<or> (of_char ch :: nat) < 0x20"
  shows
   \<open>let payload_with = (\<lambda>text. device_id c @ ''|'' @ timestamp @ ''|'' @
                          show_int (UserID_to_int user_id) @ ''|'' @
                          show_int (Severity_to_int severity) @ ''|'' @ text @ ''|'' @
                          hash_to_hex (previous_hash c));
        entry_digest = previous_hash (snd (log c timestamp message user_id severity))
    in entry_digest = hash_string (payload_with message) \<and>
       fst (log c timestamp message user_id severity) =
         ''{"device_id":"'' @ device_id c @ ''","timestamp":"'' @ timestamp @
         ''","user_id":'' @ show_int (UserID_to_int user_id) @
         '',"severity":'' @ show_int (Severity_to_int severity) @
         '',"message":"'' @ escape_json message @
         ''","previous_hash":"'' @ hash_to_hex (previous_hash c) @
         ''","chain_hash":"'' @ hash_to_hex entry_digest @ ''"}'' \<and>
       escape_json message \<noteq> message \<and>
       length message < length (escape_json message) \<and>
       payload_with (escape_json message) \<noteq> payload_with message\<close>
proof -
  have gt: "length message < length (escape_json message)"
    using assms by (rule length_escape_json_gt)
  then have ne: "escape_json message \<noteq> message" by auto
  show ?thesis
    unfolding Let_def using gt ne
    by (simp add: log_snd log_fst entry_text_def entry_head_def)
qed

section \<open>The digest of the empty input\<close>

lemma k_differs_from_FIPS_180_4:
  "filter (\<lambda>i. k ! i \<noteq> k_FIPS_180_4 ! i) [0..<64] = [4, 6, 12, 25]"
  by code_simp

lemma hash_Nil:
  "hash [] =
     [0x8c, 0x7e, 0x31, 0xeb, 0xdb, 0x68, 0x0b, 0x41, 0xd7, 0xc1, 0x4d, 0xfc, 0x38, 0x6a, 0xc8, 0xa1,
      0xb1, 0xca, 0x79, 0x32, 0xb8, 0xff, 0x2c, 0xa7, 0x97, 0x8e, 0x65, 0x72, 0x47, 0x9b, 0xde, 0x9d]"
  by code_simp

lemma hash_to_hex_hash_Nil:
  "hash_to_hex (hash []) = ''8c7e31ebdb680b41d7c14dfc386ac8a1b1ca7932b8ff2ca7978e6572479bde9d''"
  by (simp only: hash_Nil) code_simp

text \<open>
  Claim C3. The digest function is total, but it does not reproduce the published
  SHA-256 test vectors: on the empty input \<^verbatim>\<open>SHA256::hash\<close> returns the digest
  \<^verbatim>\<open>8c7e31eb...479bde9d\<close>, not the published \<^verbatim>\<open>e3b0c442...7852b855\<close>. Four entries of
  the table \<^const>\<open>k\<close> (indices 4, 6, 12 and 25) differ from the standard's round
  constants.
\<close>

theorem hash_empty_input_not_published_vector:
  "hash_to_hex (hash []) = ''8c7e31ebdb680b41d7c14dfc386ac8a1b1ca7932b8ff2ca7978e6572479bde9d'' \<and>
   hash_to_hex (hash []) \<noteq> ''e3b0c44298fc1c149afbf4c8996fb92427ae41e4649b934ca495991b7852b855''"
  by (simp add: hash_to_hex_hash_Nil)

section \<open>The genesis digest\<close>

text \<open>The digest of \<^verbatim>\<open>DTS_INIT\<close> that this \<^verbatim>\<open>SHA256\<close> class computes, and its rendering.\<close>

lemma genesis_digest:
  "hash_string ''DTS_INIT'' =
     [0xdf, 0x9d, 0x12, 0xe7, 0xa3, 0x25, 0xfc, 0xbe, 0x87, 0xd6, 0x7e, 0x07, 0x01, 0x31, 0xe7, 0x4e,
      0x59, 0x4f, 0x1f, 0xa5, 0x03, 0x58, 0x79, 0xff, 0x90, 0x9e, 0x5c, 0xc2, 0x58, 0x23, 0x04, 0x9f]"
  by code_simp

lemma genesis_hex:
  "hash_to_hex (hash_string ''DTS_INIT'') =
     ''df9d12e7a325fcbe87d67e070131e74e594f1fa5035879ff909e5cc25823049f''"
  unfolding genesis_digest by code_simp

section \<open>Entries whose digest text is not hexadecimal\<close>

text \<open>
  Claim C4. \<^verbatim>\<open>verify_chain\<close> on an entry whose \<^verbatim>\<open>chain_hash\<close> text is malformed; the
  entries below are the first entry of a chain of the device \<^verbatim>\<open>DEV-1\<close>, changed in that
  text only.
  \<^item> With \<^verbatim>\<open>g\<close> as the first character of a byte group, \<^verbatim>\<open>std::stoi\<close> throws
    \<^verbatim>\<open>std::invalid_argument\<close>, and \<^verbatim>\<open>verify_chain\<close> does not catch it.
  \<^item> With a text of one character, \<^verbatim>\<open>substr\<close> throws \<^verbatim>\<open>std::out_of_range\<close> at the
    second byte group.
  \<^item> With the byte group \<^verbatim>\<open>cg\<close> in place of \<^verbatim>\<open>0c\<close>, \<^verbatim>\<open>std::stoi\<close> reads the group as
    \<^verbatim>\<open>0x0c\<close> and the export of two entries is accepted.
  The claim says that \<^verbatim>\<open>verify_chain\<close> returns false in all three cases.
\<close>

theorem verify_chain_throws_on_malformed_hex:
  \<open>verify_chain
     [''{"device_id":"DEV-1","timestamp":"2025-01-01T00:00:00.000Z","user_id":0,"severit'' @
      ''y":1,"message":"boot","previous_hash":"df9d12e7a325fcbe87d67e070131e74e594f1fa50'' @
      ''35879ff909e5cc25823049f","chain_hash":"gad9e85e76d7f9b691291dfffcf30c8ba51786d8d'' @
      ''3527bdcda906e2458f46548"}''] = Inl InvalidArgument \<and>
   verify_chain
     [''{"device_id":"DEV-1","timestamp":"2025-01-01T00:00:00.000Z","user_id":0,"severit'' @
      ''y":1,"message":"boot","previous_hash":"df9d12e7a325fcbe87d67e070131e74e594f1fa50'' @
      ''35879ff909e5cc25823049f","chain_hash":"1"}''] = Inl OutOfRange \<and>
   verify_chain
     [''{"device_id":"DEV-1","timestamp":"2025-01-01T00:00:00.000Z","user_id":0,"severit'' @
      ''y":1,"message":"boot","previous_hash":"df9d12e7a325fcbe87d67e070131e74e594f1fa50'' @
      ''35879ff909e5cc25823049f","chain_hash":"1ad9e85e76d7f9b691291dfffcf3cg8ba51786d8d'' @
      ''3527bdcda906e2458f46548"}'',
      ''{"device_id":"DEV-1","timestamp":"2025-01-01T00:00:02.000Z","user_id":3,"severit'' @
      ''y":4,"message":"alarm","previous_hash":"1ad9e85e76d7f9b691291dfffcf30c8ba51786d8'' @
      ''d3527bdcda906e2458f46548","chain_hash":"488aa5060e9a8f43e290e22294375b2354d6e579'' @
      ''91165d118fb26d913cb76363"}''] = Inr True\<close>
  unfolding verify_chain_def genesis_digest by code_simp

section \<open>An entry whose message holds double quotes\<close>

lemma raw_payload_digest:
  \<open>hash_to_hex (hash_string
      (''DEV-1|2025-01-01T00:00:01.000Z|2|2|dose "5"|'' @
       ''df9d12e7a325fcbe87d67e070131e74e594f1fa5035879ff909e5cc25823049f'')) =
     ''5bee45934eb95e80d788e6463dba39d8151e43f24bad89b5d02666c11082de11''\<close>
  by code_simp

lemma escaped_payload_digest:
  \<open>hash_to_hex (hash_string
      (''DEV-1|2025-01-01T00:00:01.000Z|2|2|'' @ escape_json ''dose "5"'' @ ''|'' @
       ''df9d12e7a325fcbe87d67e070131e74e594f1fa5035879ff909e5cc25823049f'')) =
     ''40fb3c92f888cd465df143db0384d8e9e35ae3860dd4c2f08f1b534902983d29''\<close>
  by code_simp

text \<open>
  The theorem of claim C9 on the first append of a chain of the device \<^verbatim>\<open>DEV-1\<close> with
  the message \<^verbatim>\<open>dose "5"\<close>: the digest of the entry, and the different digest of the
  payload built from the text of the message field.
\<close>

theorem entry_digest_over_raw_message_witness:
  \<open>quote \<in> set ''dose "5"'' \<and>
   escape_json ''dose "5"'' = ''dose '' @ [backslash, quote] @ ''5'' @ [backslash, quote] \<and>
   hash_to_hex (previous_hash (snd (log (AuditChain_new ''DEV-1'') ''2025-01-01T00:00:01.000Z''
      ''dose "5"'' Operator Warning))) =
     ''5bee45934eb95e80d788e6463dba39d8151e43f24bad89b5d02666c11082de11'' \<and>
   hash_to_hex (hash_string
      (''DEV-1|2025-01-01T00:00:01.000Z|2|2|'' @ escape_json ''dose "5"'' @ ''|'' @
       hash_to_hex (previous_hash (AuditChain_new ''DEV-1'')))) =
     ''40fb3c92f888cd465df143db0384d8e9e35ae3860dd4c2f08f1b534902983d29''\<close>
proof -
  have q: \<open>quote \<in> set ''dose "5"''\<close> by (simp add: quote_def)
  then have "\<exists>ch\<in>set ''dose \"5\"''. ch = quote \<or> ch = backslash \<or> (of_char ch :: nat) < 0x20"
    by blast
  note t = entry_digest_over_raw_message[OF this, of "AuditChain_new ''DEV-1''"
      "''2025-01-01T00:00:01.000Z''" Operator Warning]
  have u: "show_int 2 = ''2''" by code_simp
  have g: "hash_to_hex (previous_hash (AuditChain_new ''DEV-1'')) =
     ''df9d12e7a325fcbe87d67e070131e74e594f1fa5035879ff909e5cc25823049f''"
    by (simp only: AuditChain_new_def AuditChain.simps genesis_hex)
  have d: \<open>previous_hash (snd (log (AuditChain_new ''DEV-1'') ''2025-01-01T00:00:01.000Z''
      ''dose "5"'' Operator Warning)) =
     hash_string (''DEV-1|2025-01-01T00:00:01.000Z|2|2|dose "5"|'' @
       ''df9d12e7a325fcbe87d67e070131e74e594f1fa5035879ff909e5cc25823049f'')\<close>
    using t unfolding Let_def g by (simp add: AuditChain_new_def u)
  have e: \<open>escape_json ''dose "5"'' = ''dose '' @ [backslash, quote] @ ''5'' @ [backslash, quote]\<close>
    by code_simp
  show ?thesis
    using q e raw_payload_digest escaped_payload_digest
    unfolding d g by (intro conjI)
qed

section \<open>The export of the three example events\<close>















end
